theory Spec2Isabelle
  imports Complex_Main "HOL-Library.AList"
begin

section \<open>Data model (types.ts, constants.ts)\<close>

text \<open>
  JavaScript numbers are modelled as mathematical reals, with one exception: \<open>NaN\<close>, which
  the graph builder can produce, is a value of the type \<open>number\<close>. The type of the edge
  weights is a parameter of \<open>Edge\<close> and \<open>GraphData\<close>: the builder produces weights of type
  \<open>number\<close>, the search is modelled on graphs whose weights are reals. A \<open>Map\<close> whose
  iteration order is observed (\<open>GraphData.nodes\<close>, scanned by \<open>forEach\<close>) is an association
  list in insertion order; a \<open>Map\<close> that is only read and written by key is a partial
  function.
\<close>

datatype number = NaN | Number real

datatype TransportMode = WALKING | CYCLING | DRIVING

record Node =
  node_id :: string
  lat :: real
  lon :: real

record 'n Edge =
  source :: string
  target :: string
  weight :: 'n

record 'n GraphData =
  nodes :: "(string \<times> Node) list"
  adjacency :: "string \<rightharpoonup> 'n Edge list"

record IsochroneParams =
  p_lat :: real
  p_lng :: real
  p_mode :: TransportMode
  p_minutes :: real

fun TRANSPORT_SPEEDS :: "TransportMode \<Rightarrow> real" where
  "TRANSPORT_SPEEDS WALKING = 5"
| "TRANSPORT_SPEEDS CYCLING = 15"
| "TRANSPORT_SPEEDS DRIVING = 40"

section \<open>Bounded shortest-path search (calculateDijkstra)\<close>

text \<open>
  The first loop of \<open>calculateDijkstra\<close>: \<open>minDist\<close> starts at \<open>Infinity\<close> (here \<open>None\<close>),
  and a node replaces the current candidate only when it is strictly nearer.
\<close>

definition nearest_scan ::
  "real \<Rightarrow> real \<Rightarrow> real option \<times> string option \<Rightarrow> string \<times> Node \<Rightarrow> real option \<times> string option" where
  "nearest_scan startLat startLng acc kv =
     (let d = (lat (snd kv) - startLat)\<^sup>2 + (lon (snd kv) - startLng)\<^sup>2
      in if (case fst acc of None \<Rightarrow> True | Some minDist \<Rightarrow> d < minDist)
         then (Some d, Some (fst kv))
         else acc)"

definition findStartNode :: "real GraphData \<Rightarrow> real \<Rightarrow> real \<Rightarrow> string option" where
  "findStartNode graph startLat startLng =
     snd (foldl (nearest_scan startLat startLng) (None, None) (nodes graph))"

text \<open>The mutable locals of the \<open>while\<close> loop.\<close>

record search_state =
  distances :: "string \<rightharpoonup> real"
  pq :: "(real \<times> string) list"
  reachableNodes :: "Node list"

text \<open>
  The body of the inner \<open>for\<close> loop: one edge relaxation. The new distance is stored and
  enqueued when the target has no distance yet or the new one is strictly smaller.
\<close>

definition relax ::
  "real \<Rightarrow> (string \<rightharpoonup> real) \<times> (real \<times> string) list \<Rightarrow> real Edge
     \<Rightarrow> (string \<rightharpoonup> real) \<times> (real \<times> string) list" where
  "relax d acc edge =
     (let vId = target edge;
          newDist = d + weight edge
      in if (case fst acc vId of None \<Rightarrow> True | Some old \<Rightarrow> newDist < old)
         then ((fst acc)(vId \<mapsto> newDist), snd acc @ [(newDist, vId)])
         else acc)"

text \<open>
  One iteration of the \<open>while\<close> body: stable sort of the queue by distance, \<open>shift\<close> of the
  head, the budget test, the push onto \<open>reachableNodes\<close> and the relaxation of the
  neighbours. On an empty queue (excluded by the loop guard) the state is returned as it is.
\<close>

definition dijkstra_step :: "real GraphData \<Rightarrow> real \<Rightarrow> search_state \<Rightarrow> search_state" where
  "dijkstra_step graph maxTimeSeconds st =
     (case sort_key fst (pq st) of
        [] \<Rightarrow> st
      | e # rest \<Rightarrow>
          if fst e > maxTimeSeconds then st\<lparr>pq := rest\<rparr>
          else
            let reach = (case map_of (nodes graph) (snd e) of
                           None \<Rightarrow> reachableNodes st
                         | Some uNode \<Rightarrow> reachableNodes st @ [uNode]);
                neighbors = (case adjacency graph (snd e) of None \<Rightarrow> [] | Some es \<Rightarrow> es);
                acc = foldl (relax (fst e)) (distances st, rest) neighbors
            in \<lparr>distances = fst acc, pq = snd acc, reachableNodes = reach\<rparr>)"

text \<open>
  The \<open>while (pq.length > 0)\<close> loop. On graphs with negative cycles it does not terminate, so
  the model carries fuel: one unit per test of the loop guard, \<open>None\<close> when it runs out.
\<close>

fun dijkstra_loop :: "nat \<Rightarrow> real GraphData \<Rightarrow> real \<Rightarrow> search_state \<Rightarrow> Node list option" where
  "dijkstra_loop 0 graph maxTimeSeconds st = None"
| "dijkstra_loop (Suc fuel) graph maxTimeSeconds st =
     (if pq st = [] then Some (reachableNodes st)
      else dijkstra_loop fuel graph maxTimeSeconds (dijkstra_step graph maxTimeSeconds st))"

definition initial_state :: "string \<Rightarrow> search_state" where
  "initial_state startNodeId =
     \<lparr>distances = [startNodeId \<mapsto> 0], pq = [(0, startNodeId)], reachableNodes = []\<rparr>"

text \<open>
  \<open>if (!startNodeId) return []\<close>: the test is true for \<open>null\<close> and also for the empty string.
\<close>

definition calculateDijkstra ::
  "nat \<Rightarrow> real GraphData \<Rightarrow> real \<Rightarrow> real \<Rightarrow> real \<Rightarrow> Node list option" where
  "calculateDijkstra fuel graph startLat startLng maxTimeSeconds =
     (case findStartNode graph startLat startLng of
        None \<Rightarrow> Some []
      | Some startNodeId \<Rightarrow>
          if startNodeId = [] then Some []
          else dijkstra_loop fuel graph maxTimeSeconds (initial_state startNodeId))"

subsection \<open>The run of the loop, iteration by iteration\<close>

text \<open>
  The state before iteration \<open>k\<close> of the \<open>while\<close> loop. Once the queue is empty the step
  leaves the state alone, so the sequence also covers the state the loop ends in.
\<close>

definition search_states :: "real GraphData \<Rightarrow> real \<Rightarrow> string \<Rightarrow> nat \<Rightarrow> search_state" where
  "search_states graph maxTimeSeconds startNodeId k =
     (dijkstra_step graph maxTimeSeconds ^^ k) (initial_state startNodeId)"

text \<open>The entry that \<open>pq.shift()\<close> returns in iteration \<open>k\<close>, if the queue is not empty.\<close>

definition popped_at :: "real GraphData \<Rightarrow> real \<Rightarrow> string \<Rightarrow> nat \<Rightarrow> (real \<times> string) option" where
  "popped_at graph maxTimeSeconds startNodeId k =
     (case sort_key fst (pq (search_states graph maxTimeSeconds startNodeId k)) of
        [] \<Rightarrow> None
      | e # rest \<Rightarrow> Some e)"

definition popped_before :: "real GraphData \<Rightarrow> real \<Rightarrow> string \<Rightarrow> nat \<Rightarrow> (real \<times> string) set" where
  "popped_before graph maxTimeSeconds startNodeId k =
     {e. \<exists>j<k. popped_at graph maxTimeSeconds startNodeId j = Some e}"

text \<open>
  \<open>walk graph s v d\<close>: following edges of the adjacency lists from \<open>s\<close> leads to \<open>v\<close>, and the
  weights, added in the order of travel as the search adds them, sum to \<open>d\<close>.
\<close>

inductive walk :: "real GraphData \<Rightarrow> string \<Rightarrow> string \<Rightarrow> real \<Rightarrow> bool"
  for graph :: "real GraphData" and s :: string where
  walk_start: "walk graph s s 0"
| walk_edge: "walk graph s u d \<Longrightarrow> adjacency graph u = Some es \<Longrightarrow> e \<in> set es
     \<Longrightarrow> walk graph s (target e) (d + weight e)"

definition shortest_time :: "real GraphData \<Rightarrow> string \<Rightarrow> string \<Rightarrow> real" where
  "shortest_time graph s v = Inf {d. walk graph s v d}"

definition nonneg_weights :: "real GraphData \<Rightarrow> bool" where
  "nonneg_weights graph =
     (\<forall>u es. adjacency graph u = Some es \<longrightarrow> (\<forall>e\<in>set es. 0 \<le> weight e))"

text \<open>
  Invariant of the relaxation loop, relative to a set \<open>P\<close> of entries already popped: the
  queue has no duplicate entry and none from \<open>P\<close>, and the recorded distance of a node is
  at most the distance of each of its entries.
\<close>

definition acc_inv ::
  "(string \<rightharpoonup> real) \<times> (real \<times> string) list \<Rightarrow> (real \<times> string) set \<Rightarrow> bool" where
  "acc_inv acc P =
     (distinct (snd acc) \<and> set (snd acc) \<inter> P = {} \<and>
      (\<forall>e\<in>set (snd acc) \<union> P. \<exists>x. fst acc (snd e) = Some x \<and> x \<le> fst e))"


section \<open>Graph builder (fetchRoadNetwork)\<close>

text \<open>\<open>Math.atan2\<close> on real arguments.\<close>

definition atan2 :: "real \<Rightarrow> real \<Rightarrow> real" where
  "atan2 y x =
     (if 0 < x then arctan (y / x)
      else if x < 0 then (if 0 \<le> y then arctan (y / x) + pi else arctan (y / x) - pi)
      else if 0 < y then pi / 2
      else if y < 0 then - (pi / 2)
      else 0)"

text \<open>The term \<open>a\<close> of \<open>getDistance\<close> (lines 9 to 16), in exact arithmetic.\<close>

definition haversine_a :: "real \<Rightarrow> real \<Rightarrow> real \<Rightarrow> real \<Rightarrow> real" where
  "haversine_a lat1 lon1 lat2 lon2 =
     (let phi1 = lat1 * pi / 180;
          phi2 = lat2 * pi / 180;
          dphi = (lat2 - lat1) * pi / 180;
          dlambda = (lon2 - lon1) * pi / 180
      in sin (dphi / 2) * sin (dphi / 2) +
         cos phi1 * cos phi2 * sin (dlambda / 2) * sin (dlambda / 2))"

text \<open>
  \<open>getDistance\<close>. In exact arithmetic the term \<open>a\<close> lies between 0 and 1. In IEEE doubles
  the computed term differs from the exact one by a rounding error, and for points that
  are antipodal or nearly so it can exceed 1; then \<open>Math.sqrt(1 - a)\<close> is \<open>NaN\<close>, and so are
  the angle, the distance and the weight. The arithmetic of the JavaScript engine is not
  part of the source: the rounding error of the computed term is the parameter \<open>rnd\<close> of
  the model, and \<open>no_rounding\<close> is exact arithmetic. The operations after the term are
  taken exact; on numbers they do not produce \<open>NaN\<close>.
\<close>

type_synonym rounding = "real \<Rightarrow> real \<Rightarrow> real \<Rightarrow> real \<Rightarrow> real"

definition no_rounding :: rounding where
  "no_rounding lat1 lon1 lat2 lon2 = 0"

definition js_sqrt :: "real \<Rightarrow> number" where
  "js_sqrt x = (if x < 0 then NaN else Number (sqrt x))"

definition getDistance :: "rounding \<Rightarrow> real \<Rightarrow> real \<Rightarrow> real \<Rightarrow> real \<Rightarrow> number" where
  "getDistance rnd lat1 lon1 lat2 lon2 =
     (let R = 6371000;
          a = haversine_a lat1 lon1 lat2 lon2 + rnd lat1 lon1 lat2 lon2
      in case js_sqrt a of
           NaN \<Rightarrow> NaN
         | Number y \<Rightarrow>
             (case js_sqrt (1 - a) of
                NaN \<Rightarrow> NaN
              | Number x \<Rightarrow> Number (R * (2 * atan2 y x))))"

text \<open>\<open>dist / speedMS\<close>, where the speed is a positive real; \<open>NaN\<close> divided is \<open>NaN\<close>.\<close>

definition divide_number :: "number \<Rightarrow> real \<Rightarrow> number" where
  "divide_number x s = (case x of NaN \<Rightarrow> NaN | Number d \<Rightarrow> Number (d / s))"



text \<open>
  Raw Overpass elements: a node with its numeric id and coordinates, a way with its list of
  node ids (absent when the element has no \<open>nodes\<close> field), anything else.
\<close>

datatype element = NodeElement int real real | WayElement "int list option" | OtherElement

text \<open>\<open>Number.prototype.toString\<close> on integer ids (decimal notation).\<close>

definition digit_char :: "nat \<Rightarrow> char" where
  "digit_char n = ''0123456789'' ! n"

fun nat_toString :: "nat \<Rightarrow> string" where
  "nat_toString n =
     (if n < 10 then [digit_char n]
      else nat_toString (n div 10) @ [digit_char (n mod 10)])"

declare nat_toString.simps [simp del]

definition toString :: "int \<Rightarrow> string" where
  "toString i = (if i < 0 then CHR ''-'' # nat_toString (nat (- i)) else nat_toString (nat i))"

text \<open>First pass over the elements: \<open>nodes.set\<close> for every node element.\<close>

definition parse_node :: "(string \<times> Node) list \<Rightarrow> element \<Rightarrow> (string \<times> Node) list" where
  "parse_node ns el =
     (case el of
        NodeElement i la lo \<Rightarrow>
          AList.update (toString i) \<lparr>node_id = toString i, lat = la, lon = lo\<rparr> ns
      | _ \<Rightarrow> ns)"




definition speedMS :: "TransportMode \<Rightarrow> real" where
  "speedMS mode = (TRANSPORT_SPEEDS mode * 1000) / 3600"

text \<open>
  \<open>if (!adjacency.has(k)) adjacency.set(k, [])\<close> and \<open>adjacency.get(k)!.push(e)\<close>; the push
  is only ever made on a key that is present.
\<close>

definition ensure_key :: "(string \<rightharpoonup> 'e list) \<Rightarrow> string \<Rightarrow> (string \<rightharpoonup> 'e list)" where
  "ensure_key adj k = (if adj k = None then adj(k \<mapsto> []) else adj)"

definition push_edge :: "(string \<rightharpoonup> 'e list) \<Rightarrow> string \<Rightarrow> 'e \<Rightarrow> (string \<rightharpoonup> 'e list)" where
  "push_edge adj k e = (case adj k of None \<Rightarrow> adj | Some es \<Rightarrow> adj(k \<mapsto> es @ [e]))"

text \<open>The body of the \<open>for\<close> loop over one way: the pair of ids at positions \<open>i\<close>, \<open>i + 1\<close>.\<close>

definition add_segment ::
  "rounding \<Rightarrow> (string \<rightharpoonup> Node) \<Rightarrow> real \<Rightarrow> (string \<rightharpoonup> number Edge list) \<Rightarrow> int \<times> int
     \<Rightarrow> (string \<rightharpoonup> number Edge list)" where
  "add_segment rnd nodeMap speed adj pr =
     (let uId = toString (fst pr);
          vId = toString (snd pr)
      in case nodeMap uId of
           None \<Rightarrow> adj
         | Some u \<Rightarrow>
             (case nodeMap vId of
                None \<Rightarrow> adj
              | Some v \<Rightarrow>
                  let dist = getDistance rnd (lat u) (lon u) (lat v) (lon v);
                      w = divide_number dist speed;
                      adj1 = ensure_key adj uId;
                      adj2 = ensure_key adj1 vId;
                      adj3 = push_edge adj2 uId \<lparr>source = uId, target = vId, weight = w\<rparr>
                  in push_edge adj3 vId \<lparr>source = vId, target = uId, weight = w\<rparr>))"

definition parse_way ::
  "rounding \<Rightarrow> (string \<rightharpoonup> Node) \<Rightarrow> real \<Rightarrow> (string \<rightharpoonup> number Edge list) \<Rightarrow> element
     \<Rightarrow> (string \<rightharpoonup> number Edge list)" where
  "parse_way rnd nodeMap speed adj el =
     (case el of
        WayElement (Some ids) \<Rightarrow> foldl (add_segment rnd nodeMap speed) adj (zip ids (tl ids))
      | _ \<Rightarrow> adj)"

text \<open>The part of \<open>fetchRoadNetwork\<close> after \<open>response.json()\<close>: both passes over the elements.\<close>

definition parse_elements :: "rounding \<Rightarrow> element list \<Rightarrow> TransportMode \<Rightarrow> number GraphData" where
  "parse_elements rnd els mode =
     (let ns = foldl parse_node [] els
      in \<lparr>nodes = ns,
          adjacency = foldl (parse_way rnd (map_of ns) (speedMS mode)) Map.empty els\<rparr>)"

text \<open>
  The Overpass service is a collaborator: the query text is a function of the bounding box
  and the mode, so the service is a function of those. It rejects (network failure, body
  that is not JSON) or answers with a status flag and the elements.
\<close>

datatype fetch_result = FetchRejected | FetchResponse bool "element list"

datatype error = NetworkError | OverpassApiError | HullError

definition bounding_box :: "real \<Rightarrow> real \<Rightarrow> real \<Rightarrow> real \<times> real \<times> real \<times> real" where
  "bounding_box centerLat centerLng radiusMeters =
     (let delta = (radiusMeters / 111320) * 1.5
      in (centerLat - delta, centerLng - delta, centerLat + delta, centerLng + delta))"

definition fetchRoadNetwork ::
  "rounding \<Rightarrow> (real \<times> real \<times> real \<times> real \<Rightarrow> TransportMode \<Rightarrow> fetch_result)
     \<Rightarrow> real \<Rightarrow> real \<Rightarrow> real \<Rightarrow> TransportMode \<Rightarrow> error + number GraphData" where
  "fetchRoadNetwork rnd overpass centerLat centerLng radiusMeters mode =
     (case overpass (bounding_box centerLat centerLng radiusMeters) mode of
        FetchRejected \<Rightarrow> Inl NetworkError
      | FetchResponse ok els \<Rightarrow>
          if \<not> ok then Inl OverpassApiError else Inr (parse_elements rnd els mode))"


definition edges_of :: "(string \<rightharpoonup> 'e list) \<Rightarrow> string \<Rightarrow> 'e list" where
  "edges_of adj k = (case adj k of None \<Rightarrow> [] | Some es \<Rightarrow> es)"









section \<open>Reachability hull (generateHull)\<close>

text \<open>
  \<open>turf.concave\<close> and \<open>turf.convex\<close> belong to a library outside the repository; they are
  parameters. Each call throws (\<open>Inl\<close>), returns \<open>null\<close> or returns a polygon. The concave
  hull receives the \<open>maxEdge\<close> option.
\<close>

definition points_of :: "Node list \<Rightarrow> (real \<times> real) list" where
  "points_of ns = map (\<lambda>n. (lon n, lat n)) ns"

definition generateHull ::
  "((real \<times> real) list \<Rightarrow> real \<Rightarrow> error + 'poly option)
     \<Rightarrow> ((real \<times> real) list \<Rightarrow> error + 'poly option)
     \<Rightarrow> Node list \<Rightarrow> real \<Rightarrow> error + 'poly option" where
  "generateHull concave convex ns maxTimeSeconds =
     (if length ns < 3 then Inr None
      else
        case concave (points_of ns) 0.1 of
          Inr (Some poly) \<Rightarrow> Inr (Some poly)
        | Inr None \<Rightarrow> convex (points_of ns)
        | Inl e \<Rightarrow> convex (points_of ns))"


section \<open>Orchestration (calculateIsochrone)\<close>

record 'poly IsochroneResult =
  polygon :: 'poly
  params :: IsochroneParams

definition fetch_radius :: "IsochroneParams \<Rightarrow> real" where
  "fetch_radius activeParams =
     speedMS (p_mode activeParams) * (p_minutes activeParams * 60) * 1.5"

datatype outcome = Skipped | Appended | NoIsochrone | Failed

text \<open>
  The graph that the builder returns is searched as it is. The search is modelled on real
  weights: \<open>real_graph\<close> reads a graph of numbers as such a graph, and is \<open>None\<close> when a
  weight is \<open>NaN\<close> (the queue then holds \<open>NaN\<close> priorities, and the order in which
  \<open>Array.prototype.sort\<close> leaves them is not determined by the source).
\<close>

fun real_edges :: "number Edge list \<Rightarrow> real Edge list option" where
  "real_edges [] = Some []"
| "real_edges (e # es) =
     (case weight e of
        NaN \<Rightarrow> None
      | Number w \<Rightarrow>
          map_option ((#) \<lparr>source = source e, target = target e, weight = w\<rparr>) (real_edges es))"

definition real_graph :: "number GraphData \<Rightarrow> real GraphData option" where
  "real_graph g =
     (if \<exists>k es. adjacency g k = Some es \<and> real_edges es = None then None
      else Some \<lparr>nodes = nodes g,
                 adjacency = (\<lambda>k. case adjacency g k of None \<Rightarrow> None | Some es \<Rightarrow> real_edges es)\<rparr>)"

text \<open>
  \<open>calculateIsochrone\<close> on the result history. It returns at once when \<open>lat\<close> or \<open>lng\<close> is
  falsy (zero); a thrown error ends in the \<open>catch\<close> branch (\<open>Failed\<close>); a \<open>null\<close> hull
  leaves the history as it is (\<open>NoIsochrone\<close>). \<open>None\<close>: the model gives no answer, because
  the search ran out of fuel or the graph holds a \<open>NaN\<close> weight.
\<close>

definition calculateIsochrone ::
  "nat \<Rightarrow> rounding \<Rightarrow> (real \<times> real \<times> real \<times> real \<Rightarrow> TransportMode \<Rightarrow> fetch_result)
     \<Rightarrow> ((real \<times> real) list \<Rightarrow> real \<Rightarrow> error + 'poly option)
     \<Rightarrow> ((real \<times> real) list \<Rightarrow> error + 'poly option)
     \<Rightarrow> IsochroneParams \<Rightarrow> 'poly IsochroneResult list
     \<Rightarrow> (outcome \<times> 'poly IsochroneResult list) option" where
  "calculateIsochrone fuel rnd overpass concave convex activeParams history =
     (if p_lat activeParams = 0 \<or> p_lng activeParams = 0 then Some (Skipped, history)
      else
        case fetchRoadNetwork rnd overpass (p_lat activeParams) (p_lng activeParams)
               (fetch_radius activeParams) (p_mode activeParams) of
          Inl e \<Rightarrow> Some (Failed, history)
        | Inr graph \<Rightarrow>
            (case real_graph graph of
               None \<Rightarrow> None
             | Some g \<Rightarrow>
                 (case calculateDijkstra fuel g (p_lat activeParams) (p_lng activeParams)
                         (p_minutes activeParams * 60) of
                    None \<Rightarrow> None
                  | Some reached \<Rightarrow>
                      (case generateHull concave convex reached (p_minutes activeParams * 60) of
                         Inl e \<Rightarrow> Some (Failed, history)
                       | Inr None \<Rightarrow> Some (NoIsochrone, history)
                       | Inr (Some poly) \<Rightarrow>
                           Some (Appended, \<lparr>polygon = poly, params = activeParams\<rparr> # history)))))"

section \<open>Bookkeeping for the termination of the search\<close>

text \<open>
  With non-negative weights the entries leave the queue in non-decreasing order of distance.
  \<open>relax_inv d F acc\<close>: every queue entry is at least \<open>d\<close> and at least the recorded distance
  of its node, every recorded distance has its entry in the queue unless the node is in
  \<open>F\<close> (the nodes popped so far), and the nodes of \<open>F\<close> have distances of at most \<open>d\<close>.
\<close>

definition relax_inv ::
  "real \<Rightarrow> string set \<Rightarrow> (string \<rightharpoonup> real) \<times> (real \<times> string) list \<Rightarrow> bool" where
  "relax_inv d F acc =
     ((\<forall>e\<in>set (snd acc). d \<le> fst e) \<and>
      (\<forall>e\<in>set (snd acc). \<exists>x. fst acc (snd e) = Some x \<and> x \<le> fst e) \<and>
      (\<forall>v x. fst acc v = Some x \<longrightarrow> (x, v) \<in> set (snd acc) \<or> v \<in> F) \<and>
      (\<forall>v\<in>F. \<exists>x. fst acc v = Some x \<and> x \<le> d))"

text \<open>Every edge out of \<open>v\<close> has been relaxed from the distance \<open>x\<close>.\<close>

definition edges_relaxed :: "real GraphData \<Rightarrow> (string \<rightharpoonup> real) \<Rightarrow> string \<Rightarrow> real \<Rightarrow> bool" where
  "edges_relaxed g ds v x =
     (\<forall>e\<in>set (edges_of (adjacency g) v). \<exists>y. ds (target e) = Some y \<and> y \<le> x + weight e)"

definition dj_inv ::
  "real GraphData \<Rightarrow> real \<Rightarrow> search_state \<Rightarrow> string set \<Rightarrow> real \<Rightarrow> bool" where
  "dj_inv g m st F lastPop =
     (relax_inv lastPop F (distances st, pq st) \<and>
      (\<forall>v\<in>F. \<forall>x. distances st v = Some x \<and> x \<le> m \<longrightarrow> edges_relaxed g (distances st) v x))"

text \<open>
  The measure that decreases in every iteration: the length of the queue plus the number
  of edges out of nodes that were never popped.
\<close>

definition pending_work :: "real GraphData \<Rightarrow> search_state \<Rightarrow> string set \<Rightarrow> nat" where
  "pending_work g st F =
     length (pq st) + (\<Sum>u\<in>dom (adjacency g) - F. length (edges_of (adjacency g) u))"

section \<open>Sample inputs\<close>

text \<open>
  Scenario A: a line of five nodes, consecutive nodes joined in both directions by edges of
  300 seconds; the origin is the first node.
\<close>

definition scenarioA_nodes :: "Node list" where
  "scenarioA_nodes =
     [\<lparr>node_id = ''1'', lat = 0, lon = 0\<rparr>, \<lparr>node_id = ''2'', lat = 0, lon = 1\<rparr>,
      \<lparr>node_id = ''3'', lat = 0, lon = 2\<rparr>, \<lparr>node_id = ''4'', lat = 0, lon = 3\<rparr>,
      \<lparr>node_id = ''5'', lat = 0, lon = 4\<rparr>]"

definition scenarioA_graph :: "real GraphData" where
  "scenarioA_graph =
     \<lparr>nodes = map (\<lambda>n. (node_id n, n)) scenarioA_nodes,
      adjacency =
        [''1'' \<mapsto> [\<lparr>source = ''1'', target = ''2'', weight = 300\<rparr>],
         ''2'' \<mapsto> [\<lparr>source = ''2'', target = ''1'', weight = 300\<rparr>,
                  \<lparr>source = ''2'', target = ''3'', weight = 300\<rparr>],
         ''3'' \<mapsto> [\<lparr>source = ''3'', target = ''2'', weight = 300\<rparr>,
                  \<lparr>source = ''3'', target = ''4'', weight = 300\<rparr>],
         ''4'' \<mapsto> [\<lparr>source = ''4'', target = ''3'', weight = 300\<rparr>,
                  \<lparr>source = ''4'', target = ''5'', weight = 300\<rparr>],
         ''5'' \<mapsto> [\<lparr>source = ''5'', target = ''4'', weight = 300\<rparr>]]\<rparr>"

text \<open>
  Three nodes where the direct edge from the first to the third node (10 s) is longer than
  the way over the second node (1 s + 1 s).
\<close>

definition detour_nodes :: "Node list" where
  "detour_nodes =
     [\<lparr>node_id = ''1'', lat = 0, lon = 0\<rparr>, \<lparr>node_id = ''2'', lat = 0, lon = 1\<rparr>,
      \<lparr>node_id = ''3'', lat = 1, lon = 1\<rparr>]"

definition detour_graph :: "real GraphData" where
  "detour_graph =
     \<lparr>nodes = map (\<lambda>n. (node_id n, n)) detour_nodes,
      adjacency =
        [''1'' \<mapsto> [\<lparr>source = ''1'', target = ''3'', weight = 10\<rparr>,
                  \<lparr>source = ''1'', target = ''2'', weight = 1\<rparr>],
         ''2'' \<mapsto> [\<lparr>source = ''2'', target = ''1'', weight = 1\<rparr>,
                  \<lparr>source = ''2'', target = ''3'', weight = 1\<rparr>],
         ''3'' \<mapsto> [\<lparr>source = ''3'', target = ''1'', weight = 10\<rparr>,
                  \<lparr>source = ''3'', target = ''2'', weight = 1\<rparr>]]\<rparr>"

text \<open>
  A hull library that closes its input into a ring, and one that does so only for three or
  more distinct points. Three entries at two distinct coordinates.
\<close>

definition ring_concave :: "(real \<times> real) list \<Rightarrow> real \<Rightarrow> error + (real \<times> real) list option" where
  "ring_concave pts maxEdge = (case pts of [] \<Rightarrow> Inr None | p # ps \<Rightarrow> Inr (Some (pts @ [p])))"

definition ring_convex :: "(real \<times> real) list \<Rightarrow> error + (real \<times> real) list option" where
  "ring_convex pts = (case pts of [] \<Rightarrow> Inr None | p # ps \<Rightarrow> Inr (Some (pts @ [p])))"






definition empty_overpass :: "real \<times> real \<times> real \<times> real \<Rightarrow> TransportMode \<Rightarrow> fetch_result" where
  "empty_overpass bbox mode = FetchResponse True []"




section \<open>Properties of the search\<close>

subsection \<open>The loop and its iterations\<close>

lemma search_states_0: "search_states g m s 0 = initial_state s"
  by (simp add: search_states_def)

lemma search_states_Suc: "search_states g m s (Suc k) = dijkstra_step g m (search_states g m s k)"
  by (simp add: search_states_def)

lemma dijkstra_loop_funpow:
  "dijkstra_loop fuel g m st = Some r \<Longrightarrow>
     \<exists>k. pq ((dijkstra_step g m ^^ k) st) = [] \<and> r = reachableNodes ((dijkstra_step g m ^^ k) st)"
proof (induction fuel arbitrary: st)
  case 0
  then show ?case by simp
next
  case (Suc fuel)
  show ?case
  proof (cases "pq st = []")
    case True
    with Suc.prems have "r = reachableNodes st" by simp
    with True have "pq ((dijkstra_step g m ^^ 0) st) = [] \<and> r = reachableNodes ((dijkstra_step g m ^^ 0) st)"
      by simp
    then show ?thesis by blast
  next
    case False
    with Suc.prems have "dijkstra_loop fuel g m (dijkstra_step g m st) = Some r" by simp
    from Suc.IH [OF this] obtain k where
      "pq ((dijkstra_step g m ^^ k) (dijkstra_step g m st)) = []"
      "r = reachableNodes ((dijkstra_step g m ^^ k) (dijkstra_step g m st))" by blast
    then have "pq ((dijkstra_step g m ^^ Suc k) st) = [] \<and> r = reachableNodes ((dijkstra_step g m ^^ Suc k) st)"
      by (simp add: funpow_swap1)
    then show ?thesis by blast
  qed
qed

lemma relax_cases:
  "relax d acc e = acc \<or>
   relax d acc e = ((fst acc)(target e \<mapsto> d + weight e), snd acc @ [(d + weight e, target e)])"
  by (simp add: relax_def Let_def)

lemma foldl_relax_walk:
  assumes "walk g s u d" and "adjacency g u = Some es"
  shows "set xs \<subseteq> set es \<Longrightarrow> \<forall>e\<in>set (snd acc). walk g s (snd e) (fst e)
     \<Longrightarrow> \<forall>e\<in>set (snd (foldl (relax d) acc xs)). walk g s (snd e) (fst e)"
proof (induction xs arbitrary: acc)
  case Nil
  then show ?case by simp
next
  case (Cons x xs)
  from Cons.prems have x: "x \<in> set es" by simp
  have w: "walk g s (target x) (d + weight x)"
    using walk_edge [OF assms(1) assms(2) x] .
  have "\<forall>e\<in>set (snd (relax d acc x)). walk g s (snd e) (fst e)"
    using relax_cases [of d acc x] Cons.prems(2) w by auto
  moreover from Cons.prems have "set xs \<subseteq> set es" by simp
  ultimately show ?case using Cons.IH by simp
qed

lemma dijkstra_step_walk:
  assumes "\<forall>e\<in>set (pq st). walk g s (snd e) (fst e)"
  shows "\<forall>e\<in>set (pq (dijkstra_step g m st)). walk g s (snd e) (fst e)"
proof (cases "sort_key fst (pq st)")
  case Nil
  then show ?thesis using assms by (simp add: dijkstra_step_def)
next
  case (Cons e rest)
  have "set (e # rest) = set (pq st)" using Cons [symmetric] by simp
  then have e: "walk g s (snd e) (fst e)" and rest: "\<forall>x\<in>set rest. walk g s (snd x) (fst x)"
    using assms by auto
  show ?thesis
  proof (cases "fst e > m")
    case True
    then show ?thesis using Cons rest by (simp add: dijkstra_step_def)
  next
    case False
    show ?thesis
    proof (cases "adjacency g (snd e)")
      case None
      then show ?thesis using Cons False rest by (simp add: dijkstra_step_def Let_def)
    next
      case (Some es)
      have "\<forall>x\<in>set (snd (foldl (relax (fst e)) (distances st, rest) es)). walk g s (snd x) (fst x)"
        using foldl_relax_walk [OF e Some, of es "(distances st, rest)"] rest by simp
      then show ?thesis using Cons False Some by (simp add: dijkstra_step_def Let_def)
    qed
  qed
qed

lemma search_states_walk:
  "\<forall>e\<in>set (pq (search_states g m s k)). walk g s (snd e) (fst e)"
proof (induction k)
  case 0
  then show ?case by (simp add: search_states_0 initial_state_def walk_start)
next
  case (Suc k)
  then show ?case using dijkstra_step_walk by (simp add: search_states_Suc)
qed

lemma popped_at_in_pq:
  "popped_at g m s k = Some e \<Longrightarrow> e \<in> set (pq (search_states g m s k))"
proof -
  assume a: "popped_at g m s k = Some e"
  then obtain rest where "sort_key fst (pq (search_states g m s k)) = e # rest"
    by (auto simp: popped_at_def split: list.splits)
  then have "e \<in> set (sort_key fst (pq (search_states g m s k)))" by simp
  then show ?thesis by simp
qed

lemma dijkstra_step_reach:
  "n \<in> set (reachableNodes (dijkstra_step g m st)) \<Longrightarrow>
   n \<in> set (reachableNodes st) \<or>
   (\<exists>e rest. sort_key fst (pq st) = e # rest \<and> fst e \<le> m \<and> map_of (nodes g) (snd e) = Some n)"
  by (auto simp: dijkstra_step_def Let_def split: list.splits if_splits option.splits)

lemma reachable_was_popped:
  "n \<in> set (reachableNodes (search_states g m s k)) \<Longrightarrow>
   \<exists>j e. j < k \<and> popped_at g m s j = Some e \<and> fst e \<le> m \<and> map_of (nodes g) (snd e) = Some n"
proof (induction k)
  case 0
  then show ?case by (simp add: search_states_0 initial_state_def)
next
  case (Suc k)
  from Suc.prems have "n \<in> set (reachableNodes (dijkstra_step g m (search_states g m s k)))"
    by (simp add: search_states_Suc)
  from dijkstra_step_reach [OF this] show ?case
  proof
    assume "n \<in> set (reachableNodes (search_states g m s k))"
    from Suc.IH [OF this] obtain j e where
      "j < k" "popped_at g m s j = Some e" "fst e \<le> m" "map_of (nodes g) (snd e) = Some n" by blast
    then have "j < Suc k \<and> popped_at g m s j = Some e \<and> fst e \<le> m \<and> map_of (nodes g) (snd e) = Some n"
      by simp
    then show ?thesis by blast
  next
    assume "\<exists>e rest. sort_key fst (pq (search_states g m s k)) = e # rest \<and> fst e \<le> m
       \<and> map_of (nodes g) (snd e) = Some n"
    then obtain e rest where h: "sort_key fst (pq (search_states g m s k)) = e # rest"
      "fst e \<le> m" "map_of (nodes g) (snd e) = Some n" by blast
    then have "popped_at g m s k = Some e" by (simp add: popped_at_def)
    with h have "k < Suc k \<and> popped_at g m s k = Some e \<and> fst e \<le> m \<and> map_of (nodes g) (snd e) = Some n"
      by simp
    then show ?thesis by blast
  qed
qed

lemma walk_nonneg: "walk g s v d \<Longrightarrow> nonneg_weights g \<Longrightarrow> 0 \<le> d"
proof (induction rule: walk.induct)
  case walk_start
  then show ?case by simp
next
  case (walk_edge u d es e)
  then have "0 \<le> weight e" unfolding nonneg_weights_def by blast
  with walk_edge show ?case by simp
qed

lemma shortest_time_le:
  assumes "nonneg_weights g" and "walk g s v d"
  shows "shortest_time g s v \<le> d"
proof -
  have "bdd_below {x. walk g s v x}"
    using walk_nonneg [OF _ assms(1)] by (auto intro!: bdd_belowI [of _ 0])
  then show ?thesis unfolding shortest_time_def using assms(2) by (simp add: cInf_lower)
qed

lemmas search_eval =
  calculateDijkstra_def findStartNode_def nearest_scan_def initial_state_def dijkstra_step_def
  relax_def Let_def search_states_def popped_at_def eval_nat_numeral

lemma dijkstra_loop_more_fuel:
  "dijkstra_loop fuel g m st = Some r \<Longrightarrow> dijkstra_loop (fuel + k) g m st = Some r"
  by (induction fuel arbitrary: st) (simp_all split: if_splits)

lemma scenarioA_start: "findStartNode scenarioA_graph 0 0 = Some ''1''"
  by (simp add: findStartNode_def nearest_scan_def scenarioA_graph_def scenarioA_nodes_def)

lemma scenarioA_loop:
  "dijkstra_loop 6 scenarioA_graph 900 (initial_state ''1'') = Some (take 4 scenarioA_nodes)"
  by (simp add: search_eval scenarioA_graph_def scenarioA_nodes_def)


lemma detour_start: "findStartNode detour_graph 0 0 = Some ''1''"
  by (simp add: findStartNode_def nearest_scan_def detour_graph_def detour_nodes_def)

lemma detour_popped_2: "popped_at detour_graph 60 ''1'' 2 = Some (2, ''3'')"
  by (simp add: search_eval detour_graph_def detour_nodes_def)

lemma detour_popped_3: "popped_at detour_graph 60 ''1'' 3 = Some (10, ''3'')"
  by (simp add: search_eval detour_graph_def detour_nodes_def)

lemma detour_result:
  "calculateDijkstra 5 detour_graph 0 0 60 =
     Some [\<lparr>node_id = ''1'', lat = 0, lon = 0\<rparr>, \<lparr>node_id = ''2'', lat = 0, lon = 1\<rparr>,
           \<lparr>node_id = ''3'', lat = 1, lon = 1\<rparr>, \<lparr>node_id = ''3'', lat = 1, lon = 1\<rparr>]"
  by (simp add: search_eval detour_graph_def detour_nodes_def)

lemma detour_nonneg: "nonneg_weights detour_graph"
  by (auto simp: nonneg_weights_def detour_graph_def split: if_splits)

subsection \<open>The loop returns on finite graphs with non-negative weights\<close>

lemma sort_key_head_min:
  assumes "sort_key fst q = e # rest"
  shows "set q = insert e (set rest)" and "\<forall>x\<in>set rest. fst e \<le> fst x"
    and "length q = Suc (length rest)"
proof -
  have "set (sort_key fst q) = set q" by simp
  then show "set q = insert e (set rest)" using assms by simp
  have "sorted (map fst (sort_key fst q))" by (rule sorted_sort_key)
  then show "\<forall>x\<in>set rest. fst e \<le> fst x" using assms by simp
  have "length (sort_key fst q) = length q" by simp
  then show "length q = Suc (length rest)" using assms by simp
qed

lemma relax_noop:
  "\<exists>y. fst acc (target e) = Some y \<and> y \<le> d + weight e \<Longrightarrow> relax d acc e = acc"
  by (auto simp: relax_def Let_def)

lemma foldl_relax_noop:
  "\<forall>e\<in>set es. \<exists>y. fst acc (target e) = Some y \<and> y \<le> d + weight e
     \<Longrightarrow> foldl (relax d) acc es = acc"
  by (induction es) (simp_all add: relax_noop)

lemma relax_length: "length (snd (relax d acc e)) \<le> Suc (length (snd acc))"
  using relax_cases [of d acc e] by auto

lemma foldl_relax_length:
  "length (snd (foldl (relax d) acc es)) \<le> length (snd acc) + length es"
proof (induction es arbitrary: acc)
  case Nil
  then show ?case by simp
next
  case (Cons e es)
  have "length (snd (foldl (relax d) (relax d acc e) es)) \<le> length (snd (relax d acc e)) + length es"
    by (rule Cons.IH)
  also have "\<dots> \<le> Suc (length (snd acc)) + length es" using relax_length [of d acc e] by simp
  finally show ?case by simp
qed

lemma relax_bound_mono:
  assumes "\<exists>y. fst acc t = Some y \<and> y \<le> c"
  shows "\<exists>y. fst (relax d acc e) t = Some y \<and> y \<le> c"
proof (cases "relax d acc e = acc")
  case True
  then show ?thesis using assms by simp
next
  case False
  then have new: "relax d acc e = ((fst acc)(target e \<mapsto> d + weight e), snd acc @ [(d + weight e, target e)])"
    using relax_cases [of d acc e] by simp
  from False have cond: "\<And>old. fst acc (target e) = Some old \<Longrightarrow> d + weight e < old"
    by (auto simp: relax_def Let_def split: if_splits option.splits)
  from assms obtain y where y: "fst acc t = Some y" "y \<le> c" by blast
  show ?thesis
  proof (cases "t = target e")
    case True
    with y cond have "d + weight e < y" by simp
    with y True show ?thesis unfolding new by simp
  next
    case False
    with y show ?thesis unfolding new by simp
  qed
qed

lemma foldl_relax_bound_mono:
  "\<exists>y. fst acc t = Some y \<and> y \<le> c \<Longrightarrow> \<exists>y. fst (foldl (relax d) acc es) t = Some y \<and> y \<le> c"
  by (induction es arbitrary: acc) (simp_all add: relax_bound_mono)

lemma relax_target: "\<exists>y. fst (relax d acc e) (target e) = Some y \<and> y \<le> d + weight e"
  by (cases "fst acc (target e)") (auto simp: relax_def Let_def)

lemma foldl_relax_targets:
  "\<forall>e\<in>set es. \<exists>y. fst (foldl (relax d) acc es) (target e) = Some y \<and> y \<le> d + weight e"
proof (induction es arbitrary: acc)
  case Nil
  then show ?case by simp
next
  case (Cons a es)
  have "\<exists>y. fst (foldl (relax d) (relax d acc a) es) (target a) = Some y \<and> y \<le> d + weight a"
    using foldl_relax_bound_mono [OF relax_target] .
  with Cons.IH [of "relax d acc a"] show ?case by simp
qed

lemma relax_relax_inv:
  assumes inv: "relax_inv d F acc" and w: "0 \<le> weight e"
  shows "relax_inv d F (relax d acc e) \<and> (\<forall>v\<in>F. fst (relax d acc e) v = fst acc v)"
proof (cases "relax d acc e = acc")
  case True
  then show ?thesis using inv by simp
next
  case False
  let ?t = "target e" and ?nd = "d + weight e"
  from False have new: "relax d acc e = ((fst acc)(?t \<mapsto> ?nd), snd acc @ [(?nd, ?t)])"
    using relax_cases [of d acc e] by simp
  from False have cond: "\<And>old. fst acc ?t = Some old \<Longrightarrow> ?nd < old"
    by (auto simp: relax_def Let_def split: if_splits option.splits)
  have a: "\<And>x. x \<in> set (snd acc) \<Longrightarrow> d \<le> fst x"
    and c: "\<And>x. x \<in> set (snd acc) \<Longrightarrow> \<exists>y. fst acc (snd x) = Some y \<and> y \<le> fst x"
    and cov: "\<And>v x. fst acc v = Some x \<Longrightarrow> (x, v) \<in> set (snd acc) \<or> v \<in> F"
    and fb: "\<And>v. v \<in> F \<Longrightarrow> \<exists>x. fst acc v = Some x \<and> x \<le> d"
    using inv unfolding relax_inv_def by blast+
  have tF: "?t \<notin> F"
  proof
    assume "?t \<in> F"
    from fb [OF this] obtain x where x: "fst acc ?t = Some x" "x \<le> d" by blast
    from cond [OF x(1)] x(2) w show False by simp
  qed
  have a': "\<forall>x\<in>set (snd acc @ [(?nd, ?t)]). d \<le> fst x" using a w by auto
  have c': "\<forall>x\<in>set (snd acc @ [(?nd, ?t)]). \<exists>y. ((fst acc)(?t \<mapsto> ?nd)) (snd x) = Some y \<and> y \<le> fst x"
  proof
    fix x assume x: "x \<in> set (snd acc @ [(?nd, ?t)])"
    show "\<exists>y. ((fst acc)(?t \<mapsto> ?nd)) (snd x) = Some y \<and> y \<le> fst x"
    proof (cases "x \<in> set (snd acc)")
      case True
      from c [OF True] obtain y where y: "fst acc (snd x) = Some y" "y \<le> fst x" by blast
      show ?thesis
      proof (cases "snd x = ?t")
        case True
        with y cond have "?nd < y" by simp
        with y True show ?thesis by simp
      next
        case False
        with y show ?thesis by simp
      qed
    next
      case False
      with x have "x = (?nd, ?t)" by simp
      then show ?thesis by simp
    qed
  qed
  have cov': "\<forall>v x. ((fst acc)(?t \<mapsto> ?nd)) v = Some x \<longrightarrow> (x, v) \<in> set (snd acc @ [(?nd, ?t)]) \<or> v \<in> F"
    using cov by (auto split: if_splits)
  have fb': "\<forall>v\<in>F. \<exists>x. ((fst acc)(?t \<mapsto> ?nd)) v = Some x \<and> x \<le> d"
    using fb tF by auto
  have same: "\<forall>v\<in>F. ((fst acc)(?t \<mapsto> ?nd)) v = fst acc v" using tF by auto
  show ?thesis unfolding new relax_inv_def using a' c' cov' fb' same by simp
qed

lemma foldl_relax_relax_inv:
  "relax_inv d F acc \<Longrightarrow> \<forall>e\<in>set es. 0 \<le> weight e \<Longrightarrow>
     relax_inv d F (foldl (relax d) acc es) \<and> (\<forall>v\<in>F. fst (foldl (relax d) acc es) v = fst acc v)"
proof (induction es arbitrary: acc)
  case Nil
  then show ?case by simp
next
  case (Cons e es)
  from Cons.prems have w: "0 \<le> weight e" and ws: "\<forall>x\<in>set es. 0 \<le> weight x" by simp_all
  from relax_relax_inv [OF Cons.prems(1) w]
  have i: "relax_inv d F (relax d acc e)" and s: "\<forall>v\<in>F. fst (relax d acc e) v = fst acc v"
    by simp_all
  from Cons.IH [OF i ws] s show ?case by simp
qed

lemma pending_work_drop:
  assumes fin: "finite (dom (adjacency g))"
    and len: "length (pq st') \<le> length (pq st) - 1 + length (edges_of (adjacency g) u)"
    and pos: "pq st \<noteq> []"
    and uF: "u \<notin> F"
  shows "pending_work g st' (insert u F) < pending_work g st F"
proof -
  let ?f = "\<lambda>v. length (edges_of (adjacency g) v)"
  let ?A = "dom (adjacency g) - F"
  have finA: "finite ?A" using fin by simp
  have eq: "dom (adjacency g) - insert u F = ?A - {u}" by auto
  have lp: "0 < length (pq st)" using pos by simp
  show ?thesis
  proof (cases "u \<in> dom (adjacency g)")
    case True
    with uF have "u \<in> ?A" by simp
    from sum.remove [OF finA this, of ?f] have "sum ?f ?A = ?f u + sum ?f (?A - {u})" .
    then show ?thesis unfolding pending_work_def eq using len lp by linarith
  next
    case False
    then have f0: "?f u = 0" by (auto simp: edges_of_def dom_def split: option.splits)
    from False have same: "?A - {u} = ?A" by auto
    from len f0 have "length (pq st') \<le> length (pq st) - 1" by simp
    with lp have "length (pq st') < length (pq st)" by arith
    then show ?thesis unfolding pending_work_def eq same by simp
  qed
qed

lemma pending_work_shrink:
  assumes fin: "finite (dom (adjacency g))"
    and len: "length (pq st') < length (pq st)"
  shows "pending_work g st' (insert u F) < pending_work g st F"
proof -
  let ?f = "\<lambda>v. length (edges_of (adjacency g) v)"
  have "sum ?f (dom (adjacency g) - insert u F) \<le> sum ?f (dom (adjacency g) - F)"
    by (rule sum_mono2) (use fin in auto)
  then show ?thesis unfolding pending_work_def using len by simp
qed

lemma dijkstra_step_progress:
  assumes nn: "nonneg_weights g" and fin: "finite (dom (adjacency g))"
    and inv: "dj_inv g m st F lastPop" and ne: "pq st \<noteq> []"
  shows "\<exists>F' lastPop'. dj_inv g m (dijkstra_step g m st) F' lastPop'
           \<and> pending_work g (dijkstra_step g m st) F' < pending_work g st F"
proof -
  have "length (sort_key fst (pq st)) = length (pq st)" by simp
  with ne have "sort_key fst (pq st) \<noteq> []" by (metis length_0_conv)
  then obtain e rest where srt: "sort_key fst (pq st) = e # rest"
    by (cases "sort_key fst (pq st)") auto
  note hm = sort_key_head_min [OF srt]
  let ?d = "fst e" and ?u = "snd e" and ?ds = "distances st"
  let ?es = "edges_of (adjacency g) ?u"
  from inv have ri: "relax_inv lastPop F (?ds, pq st)"
    and er: "\<And>v x. v \<in> F \<Longrightarrow> ?ds v = Some x \<Longrightarrow> x \<le> m \<Longrightarrow> edges_relaxed g ?ds v x"
    unfolding dj_inv_def by blast+
  from ri have a: "\<And>x. x \<in> set (pq st) \<Longrightarrow> lastPop \<le> fst x"
    and c: "\<And>x. x \<in> set (pq st) \<Longrightarrow> \<exists>y. ?ds (snd x) = Some y \<and> y \<le> fst x"
    and cov: "\<And>v x. ?ds v = Some x \<Longrightarrow> (x, v) \<in> set (pq st) \<or> v \<in> F"
    and fb: "\<And>v. v \<in> F \<Longrightarrow> \<exists>x. ?ds v = Some x \<and> x \<le> lastPop"
    unfolding relax_inv_def by auto
  have e_in: "e \<in> set (pq st)" using hm(1) by simp
  have ld: "lastPop \<le> ?d" using a [OF e_in] .
  obtain xu where xu: "?ds ?u = Some xu" "xu \<le> ?d" using c [OF e_in] by blast
  have du: "?ds ?u = Some ?d" if "?u \<notin> F"
  proof -
    from cov [OF xu(1)] that have "(xu, ?u) \<in> set (pq st)" by blast
    then have "(xu, ?u) = e \<or> (xu, ?u) \<in> set rest" using hm(1) by simp
    then have "?d \<le> xu"
    proof
      assume "(xu, ?u) = e"
      then have "fst e = xu" by (metis fst_conv)
      then show ?thesis by simp
    next
      assume "(xu, ?u) \<in> set rest"
      with hm(2) show ?thesis by fastforce
    qed
    with xu show ?thesis by simp
  qed
  have base: "relax_inv ?d (insert ?u F) (?ds, rest)"
    unfolding relax_inv_def
  proof (intro conjI)
    show "\<forall>x\<in>set (snd (?ds, rest)). ?d \<le> fst x" using hm(2) by simp
    show "\<forall>x\<in>set (snd (?ds, rest)). \<exists>y. fst (?ds, rest) (snd x) = Some y \<and> y \<le> fst x"
      using c hm(1) by simp
    show "\<forall>v x. fst (?ds, rest) v = Some x \<longrightarrow> (x, v) \<in> set (snd (?ds, rest)) \<or> v \<in> insert ?u F"
    proof (intro allI impI)
      fix v x assume "fst (?ds, rest) v = Some x"
      then have "?ds v = Some x" by simp
      from cov [OF this] have "(x, v) \<in> insert e (set rest) \<or> v \<in> F" using hm(1) by simp
      then show "(x, v) \<in> set (snd (?ds, rest)) \<or> v \<in> insert ?u F" by auto
    qed
    show "\<forall>v\<in>insert ?u F. \<exists>x. fst (?ds, rest) v = Some x \<and> x \<le> ?d"
    proof
      fix v assume "v \<in> insert ?u F"
      then have "v = ?u \<or> v \<in> F" by simp
      then show "\<exists>x. fst (?ds, rest) v = Some x \<and> x \<le> ?d"
      proof
        assume "v = ?u"
        with xu show ?thesis by simp
      next
        assume "v \<in> F"
        from fb [OF this] obtain x where "?ds v = Some x" "x \<le> lastPop" by blast
        with ld show ?thesis by simp
      qed
    qed
  qed
  have lrest: "length rest = length (pq st) - 1" using hm(3) by simp
  show ?thesis
  proof (cases "?d > m")
    case True
    then have st': "dijkstra_step g m st = st\<lparr>pq := rest\<rparr>"
      using srt by (simp add: dijkstra_step_def)
    have "dj_inv g m (st\<lparr>pq := rest\<rparr>) (insert ?u F) ?d"
      unfolding dj_inv_def
    proof (intro conjI ballI allI impI)
      show "relax_inv ?d (insert ?u F) (distances (st\<lparr>pq := rest\<rparr>), pq (st\<lparr>pq := rest\<rparr>))"
        using base by simp
    next
      fix v x
      assume v: "v \<in> insert ?u F" and x: "distances (st\<lparr>pq := rest\<rparr>) v = Some x \<and> x \<le> m"
      show "edges_relaxed g (distances (st\<lparr>pq := rest\<rparr>)) v x"
      proof (cases "v \<in> F")
        case True
        with er x show ?thesis by simp
      next
        case False
        with v have "v = ?u" by simp
        with False du have "?ds v = Some ?d" by simp
        with x \<open>?d > m\<close> show ?thesis by simp
      qed
    qed
    moreover have "pending_work g (st\<lparr>pq := rest\<rparr>) (insert ?u F) < pending_work g st F"
      by (rule pending_work_shrink [OF fin]) (simp add: hm(3))
    ultimately show ?thesis unfolding st' by blast
  next
    case False
    define acc where "acc = foldl (relax ?d) (?ds, rest) ?es"
    have dist': "distances (dijkstra_step g m st) = fst acc"
      and pq': "pq (dijkstra_step g m st) = snd acc"
      using srt False by (simp_all add: dijkstra_step_def Let_def acc_def edges_of_def)
    show ?thesis
    proof (cases "?u \<in> F")
      case True
      from fb [OF True] obtain x where x: "?ds ?u = Some x" "x \<le> lastPop" by blast
      with ld False have "x \<le> m" by simp
      from er [OF True x(1) this] have rel: "edges_relaxed g ?ds ?u x" .
      have "\<forall>e'\<in>set ?es. \<exists>y. fst (?ds, rest) (target e') = Some y \<and> y \<le> ?d + weight e'"
      proof
        fix e' assume "e' \<in> set ?es"
        with rel obtain y where "?ds (target e') = Some y" "y \<le> x + weight e'"
          unfolding edges_relaxed_def by blast
        with x(2) ld show "\<exists>y. fst (?ds, rest) (target e') = Some y \<and> y \<le> ?d + weight e'" by simp
      qed
      from foldl_relax_noop [OF this] have acc: "acc = (?ds, rest)" by (simp add: acc_def)
      have ins: "insert ?u F = F" using True by auto
      have "relax_inv ?d F (?ds, rest)" using base ins by simp
      then have "dj_inv g m (dijkstra_step g m st) F ?d"
        unfolding dj_inv_def dist' pq' acc using er by simp
      moreover have "pending_work g (dijkstra_step g m st) F < pending_work g st F"
        unfolding pending_work_def pq' acc using hm(3) by simp
      ultimately show ?thesis by blast
    next
      case uF: False
      have ws: "\<forall>e'\<in>set ?es. 0 \<le> weight e'"
      proof (cases "adjacency g ?u")
        case None
        then show ?thesis by (simp add: edges_of_def)
      next
        case (Some es')
        with nn have "\<forall>e'\<in>set es'. 0 \<le> weight e'" unfolding nonneg_weights_def by blast
        with Some show ?thesis by (simp add: edges_of_def)
      qed
      from foldl_relax_relax_inv [OF base ws]
      have ri': "relax_inv ?d (insert ?u F) acc"
        and same: "\<And>v. v \<in> insert ?u F \<Longrightarrow> fst acc v = ?ds v"
        unfolding acc_def by auto
      have "dj_inv g m (dijkstra_step g m st) (insert ?u F) ?d"
        unfolding dj_inv_def dist' pq'
      proof (intro conjI ballI allI impI)
        show "relax_inv ?d (insert ?u F) (fst acc, snd acc)" using ri' by simp
      next
        fix v x
        assume v: "v \<in> insert ?u F" and x: "fst acc v = Some x \<and> x \<le> m"
        from same [OF v] x have xv: "?ds v = Some x" by simp
        show "edges_relaxed g (fst acc) v x"
        proof (cases "v = ?u")
          case True
          with xv du [OF uF] have "x = ?d" by simp
          then show ?thesis
            unfolding edges_relaxed_def True acc_def
            using foldl_relax_targets [of ?es ?d "(?ds, rest)"] by simp
        next
          case False
          with v have vF: "v \<in> F" by simp
          from er [OF vF xv] x have "edges_relaxed g ?ds v x" by simp
          then show ?thesis
            unfolding edges_relaxed_def acc_def
            using foldl_relax_bound_mono [of "(?ds, rest)" _ _ ?d ?es] by simp
        qed
      qed
      moreover have "pending_work g (dijkstra_step g m st) (insert ?u F) < pending_work g st F"
      proof (rule pending_work_drop [OF fin _ ne uF])
        show "length (pq (dijkstra_step g m st)) \<le> length (pq st) - 1 + length ?es"
          unfolding pq' acc_def using foldl_relax_length [of ?d "(?ds, rest)" ?es] lrest by simp
      qed
      ultimately show ?thesis by blast
    qed
  qed
qed

lemma dijkstra_loop_returns:
  assumes nn: "nonneg_weights g" and fin: "finite (dom (adjacency g))"
  shows "dj_inv g m st F lastPop \<Longrightarrow> pending_work g st F < n
     \<Longrightarrow> \<exists>r. dijkstra_loop n g m st = Some r"
proof (induction n arbitrary: st F lastPop)
  case 0
  then show ?case by simp
next
  case (Suc n)
  show ?case
  proof (cases "pq st = []")
    case True
    then show ?thesis by simp
  next
    case False
    from dijkstra_step_progress [OF nn fin Suc.prems(1) False] obtain F' l'
      where i: "dj_inv g m (dijkstra_step g m st) F' l'"
        and p: "pending_work g (dijkstra_step g m st) F' < pending_work g st F" by blast
    from p Suc.prems(2) have "pending_work g (dijkstra_step g m st) F' < n" by simp
    from Suc.IH [OF i this] False show ?thesis by simp
  qed
qed

lemma initial_dj_inv: "dj_inv g m (initial_state s) {} 0"
  by (auto simp: dj_inv_def relax_inv_def initial_state_def split: if_splits)

lemma calculateDijkstra_returns:
  assumes nn: "nonneg_weights g" and fin: "finite (dom (adjacency g))"
  shows "\<exists>res. calculateDijkstra
            (2 + (\<Sum>u\<in>dom (adjacency g). length (edges_of (adjacency g) u))) g startLat startLng m
          = Some res"
proof (cases "findStartNode g startLat startLng")
  case None
  then show ?thesis by (simp add: calculateDijkstra_def)
next
  case (Some s)
  have "pending_work g (initial_state s) {}
          < 2 + (\<Sum>u\<in>dom (adjacency g). length (edges_of (adjacency g) u))"
    by (simp add: pending_work_def initial_state_def)
  from dijkstra_loop_returns [OF nn fin initial_dj_inv this] Some
  show ?thesis by (simp add: calculateDijkstra_def)
qed

lemma dijkstra_step_empty: "pq st = [] \<Longrightarrow> dijkstra_step g m st = st"
  by (simp add: dijkstra_step_def)

lemma funpow_dijkstra_step_empty: "pq st = [] \<Longrightarrow> (dijkstra_step g m ^^ k) st = st"
  by (induction k) (simp_all add: dijkstra_step_empty)

lemma dijkstra_loop_empty_at:
  "dijkstra_loop (Suc n) g m st = Some r \<Longrightarrow> pq ((dijkstra_step g m ^^ n) st) = []"
proof (induction n arbitrary: st)
  case 0
  then show ?case by (simp split: if_splits)
next
  case (Suc n)
  show ?case
  proof (cases "pq st = []")
    case True
    then show ?thesis by (simp only: funpow_dijkstra_step_empty)
  next
    case False
    with Suc.prems have "dijkstra_loop (Suc n) g m (dijkstra_step g m st) = Some r" by simp
    from Suc.IH [OF this] show ?thesis by (simp add: funpow_swap1)
  qed
qed

lemma queue_empty_after_all_edges:
  assumes nn: "nonneg_weights g" and fin: "finite (dom (adjacency g))"
  shows "pq (search_states g m s (1 + (\<Sum>u\<in>dom (adjacency g). length (edges_of (adjacency g) u)))) = []"
proof -
  let ?E = "\<Sum>u\<in>dom (adjacency g). length (edges_of (adjacency g) u)"
  have "pending_work g (initial_state s) {} < Suc (1 + ?E)"
    by (simp add: pending_work_def initial_state_def)
  from dijkstra_loop_returns [OF nn fin initial_dj_inv this]
  obtain r where "dijkstra_loop (Suc (1 + ?E)) g m (initial_state s) = Some r" by blast
  from dijkstra_loop_empty_at [OF this] show ?thesis by (simp add: search_states_def)
qed

lemma queue_stays_empty:
  assumes nn: "nonneg_weights g" and fin: "finite (dom (adjacency g))"
  shows "popped_at g m s (1 + (\<Sum>u\<in>dom (adjacency g). length (edges_of (adjacency g) u)) + i) = None"
proof -
  let ?n = "1 + (\<Sum>u\<in>dom (adjacency g). length (edges_of (adjacency g) u))"
  have e: "pq (search_states g m s ?n) = []" using queue_empty_after_all_edges [OF nn fin] .
  have "search_states g m s (?n + i) = (dijkstra_step g m ^^ i) (search_states g m s ?n)"
    unfolding search_states_def by (simp only: funpow_add o_apply add.commute [of ?n i])
  also have "\<dots> = search_states g m s ?n" using e by (rule funpow_dijkstra_step_empty)
  finally show ?thesis using e by (simp add: popped_at_def)
qed

subsection \<open>Queue entries are never repeated\<close>

lemma relax_acc_inv:
  assumes "acc_inv acc P"
  shows "acc_inv (relax d acc e) P"
proof (cases "relax d acc e = acc")
  case True
  then show ?thesis using assms by simp
next
  case False
  let ?v = "target e" and ?nd = "d + weight e"
  from False have new: "relax d acc e = ((fst acc)(?v \<mapsto> ?nd), snd acc @ [(?nd, ?v)])"
    using relax_cases [of d acc e] by simp
  from False have cond: "\<And>old. fst acc ?v = Some old \<Longrightarrow> ?nd < old"
    by (auto simp: relax_def Let_def split: if_splits option.splits)
  have bound: "\<And>x. x \<in> set (snd acc) \<union> P \<Longrightarrow> \<exists>y. fst acc (snd x) = Some y \<and> y \<le> fst x"
    using assms unfolding acc_inv_def by blast
  have fresh: "(?nd, ?v) \<notin> set (snd acc) \<union> P"
  proof
    assume "(?nd, ?v) \<in> set (snd acc) \<union> P"
    from bound [OF this] obtain y where "fst acc ?v = Some y" "y \<le> ?nd" by auto
    with cond show False by fastforce
  qed
  have d: "distinct (snd acc @ [(?nd, ?v)])"
    using assms fresh unfolding acc_inv_def by simp
  have i: "set (snd acc @ [(?nd, ?v)]) \<inter> P = {}"
    using assms fresh unfolding acc_inv_def by auto
  have b: "\<exists>y. ((fst acc)(?v \<mapsto> ?nd)) (snd x) = Some y \<and> y \<le> fst x"
    if x: "x \<in> set (snd acc @ [(?nd, ?v)]) \<union> P" for x
  proof (cases "snd x = ?v")
    case False
    with x have "x \<in> set (snd acc) \<union> P" by auto
    from bound [OF this] False show ?thesis by simp
  next
    case True
    show ?thesis
    proof (cases "x = (?nd, ?v)")
      case True
      then show ?thesis by simp
    next
      case False
      with x have "x \<in> set (snd acc) \<union> P" by auto
      from bound [OF this] obtain y where y: "fst acc (snd x) = Some y" "y \<le> fst x" by blast
      with True cond have "?nd < y" by simp
      with y True show ?thesis by simp
    qed
  qed
  show ?thesis unfolding new acc_inv_def using d i b by simp
qed

lemma foldl_relax_acc_inv: "acc_inv acc P \<Longrightarrow> acc_inv (foldl (relax d) acc xs) P"
  by (induction xs arbitrary: acc) (simp_all add: relax_acc_inv)

lemma dijkstra_step_acc_inv:
  assumes inv: "acc_inv (distances st, pq st) P" and srt: "sort_key fst (pq st) = e # rest"
  shows "acc_inv (distances (dijkstra_step g m st), pq (dijkstra_step g m st)) (insert e P)"
proof -
  have s: "set (e # rest) = set (pq st)" using srt [symmetric] by simp
  have "distinct (sort_key fst (pq st))" using inv by (simp add: acc_inv_def)
  then have dist: "distinct (e # rest)" using srt by simp
  have base: "acc_inv (distances st, rest) (insert e P)"
    unfolding acc_inv_def using inv s dist unfolding acc_inv_def by auto
  show ?thesis
  proof (cases "fst e > m")
    case True
    then show ?thesis using srt base by (simp add: dijkstra_step_def)
  next
    case False
    have "acc_inv (foldl (relax (fst e)) (distances st, rest)
            (case adjacency g (snd e) of None \<Rightarrow> [] | Some es \<Rightarrow> es)) (insert e P)"
      using foldl_relax_acc_inv [OF base] .
    then show ?thesis using srt False by (simp add: dijkstra_step_def Let_def acc_inv_def)
  qed
qed

lemma popped_before_Suc_Some:
  "popped_at g m s k = Some e \<Longrightarrow> popped_before g m s (Suc k) = insert e (popped_before g m s k)"
  by (auto simp: popped_before_def less_Suc_eq)

lemma search_states_acc_inv:
  "acc_inv (distances (search_states g m s k), pq (search_states g m s k)) (popped_before g m s k)"
proof (induction k)
  case 0
  then show ?case
    by (simp add: search_states_0 initial_state_def acc_inv_def popped_before_def)
next
  case (Suc k)
  show ?case
  proof (cases "sort_key fst (pq (search_states g m s k))")
    case Nil
    then have "popped_at g m s k = None" by (simp add: popped_at_def)
    then have "popped_before g m s (Suc k) = popped_before g m s k"
      by (auto simp: popped_before_def less_Suc_eq)
    moreover from Nil have "search_states g m s (Suc k) = search_states g m s k"
      by (simp add: search_states_Suc dijkstra_step_def)
    ultimately show ?thesis using Suc.IH by simp
  next
    case (Cons e rest)
    then have "popped_at g m s k = Some e" by (simp add: popped_at_def)
    from popped_before_Suc_Some [OF this] dijkstra_step_acc_inv [OF Suc.IH Cons, of g m]
    show ?thesis by (simp add: search_states_Suc)
  qed
qed

text \<open>
  C1 (as the code has it). The search keeps no set of finalized nodes, so a node is popped
  and expanded once for every entry of it in the queue. What holds for every graph, start
  node and budget: a node is enqueued only on a strict improvement of its recorded distance,
  so the entries popped in two different iterations are never the same pair of distance
  and node. And on a finite graph with non-negative weights the queue is empty after at
  most 1 + E iterations, where E is the number of edges in the adjacency lists: the number
  of pops is bounded by the edges, not by the nodes.
\<close>

theorem pops_distinct_and_bounded:
  "(j < k \<and> popped_at g m s j = Some e \<and> popped_at g m s k = Some e' \<longrightarrow> e \<noteq> e')
   \<and> (nonneg_weights g \<and> finite (dom (adjacency g)) \<longrightarrow>
        popped_at g m s (1 + (\<Sum>u\<in>dom (adjacency g). length (edges_of (adjacency g) u)) + i) = None)"
proof (rule conjI)
  show "j < k \<and> popped_at g m s j = Some e \<and> popped_at g m s k = Some e' \<longrightarrow> e \<noteq> e'"
  proof (rule impI)
    assume h: "j < k \<and> popped_at g m s j = Some e \<and> popped_at g m s k = Some e'"
    then have "e \<in> popped_before g m s k" by (auto simp: popped_before_def)
    moreover have "e' \<in> set (pq (search_states g m s k))" using h popped_at_in_pq by blast
    moreover have "set (pq (search_states g m s k)) \<inter> popped_before g m s k = {}"
      using search_states_acc_inv [of g m s k] by (simp add: acc_inv_def)
    ultimately show "e \<noteq> e'" by blast
  qed
next
  show "nonneg_weights g \<and> finite (dom (adjacency g)) \<longrightarrow>
        popped_at g m s (1 + (\<Sum>u\<in>dom (adjacency g). length (edges_of (adjacency g) u)) + i) = None"
    using queue_stays_empty by blast
qed

theorem pops_distinct_and_bounded_witness:
  "(2::nat) < 3
   \<and> popped_at detour_graph 60 ''1'' 2 = Some (2, ''3'')
   \<and> popped_at detour_graph 60 ''1'' 3 = Some (10, ''3'')
   \<and> nonneg_weights detour_graph \<and> finite (dom (adjacency detour_graph))
   \<and> (2::real, ''3'') \<noteq> (10, ''3'')
   \<and> popped_at detour_graph 60 ''1''
        (1 + (\<Sum>u\<in>dom (adjacency detour_graph). length (edges_of (adjacency detour_graph) u)) + 0) = None"
proof -
  have h: "(2::nat) < 3" by simp
  have f: "finite (dom (adjacency detour_graph))" by (simp add: detour_graph_def)
  from pops_distinct_and_bounded
         [of 2 3 detour_graph 60 "''1''" "(2, ''3'')" "(10, ''3'')" 0]
    h f detour_popped_2 detour_popped_3 detour_nonneg
  show ?thesis by blast
qed

text \<open>
  C1 (as stated) fails: on the three-node graph \<open>detour_graph\<close>, searched from its first node
  with a budget of 60 seconds, node 3 is popped within budget in iteration 2 (distance 2)
  and again in iteration 3 (distance 10); it is returned twice, and the loop expands four
  entries on a graph of three nodes.
\<close>

theorem detour_node_expanded_twice:
  "popped_at detour_graph 60 ''1'' 2 = Some (2, ''3'')
   \<and> popped_at detour_graph 60 ''1'' 3 = Some (10, ''3'')
   \<and> calculateDijkstra 5 detour_graph 0 0 60 =
       Some [\<lparr>node_id = ''1'', lat = 0, lon = 0\<rparr>, \<lparr>node_id = ''2'', lat = 0, lon = 1\<rparr>,
           \<lparr>node_id = ''3'', lat = 1, lon = 1\<rparr>, \<lparr>node_id = ''3'', lat = 1, lon = 1\<rparr>]
   \<and> length (nodes detour_graph) = 3"
proof -
  have "length (nodes detour_graph) = 3" by (simp add: detour_graph_def detour_nodes_def)
  with detour_popped_2 detour_popped_3 detour_result show ?thesis by (intro conjI)
qed

subsection \<open>Where the budget is tested\<close>









subsection \<open>Scenario A\<close>

text \<open>
  C3 (as the code has it). On the five-node line of 300-second edges, searched from the
  first node with a budget of 15 * 60 = 900 seconds, the search returns the first four
  nodes, at 0, 300, 600 and 900 seconds: the budget test is \<open>d > maxTimeSeconds\<close>, so a node
  at exactly 900 seconds is within budget; only the fifth node (1200 seconds) is left out.
  Six units of fuel are enough, and more change nothing.
\<close>

theorem scenarioA_reaches_four_nodes:
  "calculateDijkstra (6 + k) scenarioA_graph 0 0 (15 * 60) = Some (take 4 scenarioA_nodes)"
  using dijkstra_loop_more_fuel [OF scenarioA_loop, of k]
  by (simp add: calculateDijkstra_def scenarioA_start)

text \<open>C3 (as stated) fails: the returned set is not the set of the first three nodes.\<close>

theorem scenarioA_not_three_nodes:
  "calculateDijkstra 6 scenarioA_graph 0 0 (15 * 60) = Some (take 4 scenarioA_nodes)
   \<and> set (take 4 scenarioA_nodes) \<noteq> set (take 3 scenarioA_nodes)"
proof -
  have "calculateDijkstra 6 scenarioA_graph 0 0 (15 * 60) = Some (take 4 scenarioA_nodes)"
    using scenarioA_loop by (simp add: calculateDijkstra_def scenarioA_start)
  moreover have "\<lparr>node_id = ''4'', lat = 0, lon = 3\<rparr> \<in> set (take 4 scenarioA_nodes)"
    by (simp add: scenarioA_nodes_def eval_nat_numeral)
  moreover have "\<lparr>node_id = ''4'', lat = 0, lon = 3\<rparr> \<notin> set (take 3 scenarioA_nodes)"
    by (simp add: scenarioA_nodes_def eval_nat_numeral)
  ultimately show ?thesis by metis
qed

subsection \<open>Returned nodes are within the budget\<close>

text \<open>
  C5. For every graph with non-negative edge weights, origin and budget: every node the
  search returns was popped in some iteration with a distance \<open>d\<close> within the budget, \<open>d\<close> is
  the length of a walk from the start node to it, and so its shortest travel time from the
  start node is within the budget.
\<close>

theorem calculateDijkstra_within_budget:
  assumes nn: "nonneg_weights g"
    and res: "calculateDijkstra fuel g startLat startLng m = Some res"
    and n: "n \<in> set res"
  shows "\<exists>s k d u. findStartNode g startLat startLng = Some s
           \<and> popped_at g m s k = Some (d, u) \<and> d \<le> m
           \<and> map_of (nodes g) u = Some n
           \<and> walk g s u d \<and> shortest_time g s u \<le> m"
proof -
  from res n obtain s where s: "findStartNode g startLat startLng = Some s"
    and loop: "dijkstra_loop fuel g m (initial_state s) = Some res"
    by (auto simp: calculateDijkstra_def split: option.splits if_splits)
  from dijkstra_loop_funpow [OF loop] obtain k where
    "res = reachableNodes (search_states g m s k)" by (auto simp: search_states_def)
  with n have "n \<in> set (reachableNodes (search_states g m s k))" by simp
  from reachable_was_popped [OF this] obtain j e where
    e: "popped_at g m s j = Some e" "fst e \<le> m" "map_of (nodes g) (snd e) = Some n" by blast
  have w: "walk g s (snd e) (fst e)"
    using popped_at_in_pq [OF e(1)] search_states_walk by blast
  have "shortest_time g s (snd e) \<le> fst e" using shortest_time_le [OF nn w] .
  with e(2) have "shortest_time g s (snd e) \<le> m" by simp
  with s e w have "findStartNode g startLat startLng = Some s
           \<and> popped_at g m s j = Some (fst e, snd e) \<and> fst e \<le> m
           \<and> map_of (nodes g) (snd e) = Some n
           \<and> walk g s (snd e) (fst e) \<and> shortest_time g s (snd e) \<le> m" by simp
  then show ?thesis by blast
qed

theorem calculateDijkstra_within_budget_witness:
  "nonneg_weights detour_graph
   \<and> calculateDijkstra 5 detour_graph 0 0 60 =
       Some [\<lparr>node_id = ''1'', lat = 0, lon = 0\<rparr>, \<lparr>node_id = ''2'', lat = 0, lon = 1\<rparr>,
           \<lparr>node_id = ''3'', lat = 1, lon = 1\<rparr>, \<lparr>node_id = ''3'', lat = 1, lon = 1\<rparr>]
   \<and> (\<exists>s k d u. findStartNode detour_graph 0 0 = Some s
           \<and> popped_at detour_graph 60 s k = Some (d, u) \<and> d \<le> 60
           \<and> map_of (nodes detour_graph) u = Some \<lparr>node_id = ''3'', lat = 1, lon = 1\<rparr>
           \<and> walk detour_graph s u d \<and> shortest_time detour_graph s u \<le> 60)"
proof -
  have n: "\<lparr>node_id = ''3'', lat = 1, lon = 1\<rparr> \<in> set [\<lparr>node_id = ''1'', lat = 0, lon = 0\<rparr>, \<lparr>node_id = ''2'', lat = 0, lon = 1\<rparr>,
           \<lparr>node_id = ''3'', lat = 1, lon = 1\<rparr>, \<lparr>node_id = ''3'', lat = 1, lon = 1\<rparr>]"
    by simp
  from calculateDijkstra_within_budget [OF detour_nonneg detour_result n] detour_nonneg detour_result
  show ?thesis by simp
qed

section \<open>Properties of the graph builder\<close>

subsection \<open>Edges of a way\<close>



















subsection \<open>Keys and stored nodes\<close>












subsection \<open>The distance\<close>





lemma atan2_nonneg: "0 \<le> y \<Longrightarrow> 0 \<le> x \<Longrightarrow> 0 \<le> atan2 y x"
  by (auto simp: atan2_def zero_le_arctan_iff)










subsection \<open>Structure and weights of the built graph\<close>




















subsection \<open>The sample answers\<close>






subsection \<open>The claims on the graph builder\<close>







section \<open>Properties of the hull generator and of the orchestration\<close>

text \<open>The test of \<open>generateHull\<close> itself is on the number of entries.\<close>

lemma generateHull_length_guard: "length ns < 3 \<Longrightarrow> generateHull concave convex ns t = Inr None"
  by (simp add: generateHull_def)



text \<open>
  C10. The hull does not depend on the second argument of \<open>generateHull\<close>: the parameter
  is never read, and the concave hull is always called with \<open>maxEdge = 0.1\<close>.
\<close>

theorem generateHull_ignores_time:
  "generateHull concave convex ns t1 = generateHull concave convex ns t2"
  by (simp add: generateHull_def)

text \<open>
  C8. When the Overpass service answers the request of the orchestrator with no elements:
  the graph has no nodes and no edges, the search on a graph without nodes returns the
  empty list, the hull of the empty list is \<open>null\<close>, and \<open>calculateIsochrone\<close> leaves the
  history as it is.
\<close>

theorem empty_elements_pipeline:
  assumes "overpass (bounding_box (p_lat p) (p_lng p) (fetch_radius p)) (p_mode p) = FetchResponse True []"
  shows "fetchRoadNetwork rnd overpass (p_lat p) (p_lng p) (fetch_radius p) (p_mode p)
           = Inr \<lparr>nodes = [], adjacency = Map.empty\<rparr>
       \<and> calculateDijkstra fuel \<lparr>nodes = [], adjacency = adj\<rparr> startLat startLng m = Some []
       \<and> generateHull concave convex [] m = Inr None
       \<and> calculateIsochrone fuel rnd overpass concave convex p history
           = Some (if p_lat p = 0 \<or> p_lng p = 0 then Skipped else NoIsochrone, history)"
proof -
  have f: "fetchRoadNetwork rnd overpass (p_lat p) (p_lng p) (fetch_radius p) (p_mode p)
           = Inr \<lparr>nodes = [], adjacency = Map.empty\<rparr>"
    using assms by (simp add: fetchRoadNetwork_def parse_elements_def)
  have r: "real_graph \<lparr>nodes = [], adjacency = Map.empty\<rparr> = Some \<lparr>nodes = [], adjacency = Map.empty\<rparr>"
    by (simp add: real_graph_def)
  have d: "calculateDijkstra fuel \<lparr>nodes = [], adjacency = a\<rparr> la lo m' = Some []" for a la lo m'
    by (simp add: calculateDijkstra_def findStartNode_def)
  have h: "generateHull concave convex [] m' = Inr None" for m'
    by (simp add: generateHull_def)
  have "calculateIsochrone fuel rnd overpass concave convex p history
           = Some (if p_lat p = 0 \<or> p_lng p = 0 then Skipped else NoIsochrone, history)"
    by (simp add: calculateIsochrone_def f r d h)
  with f d h show ?thesis by simp
qed

theorem empty_elements_pipeline_witness:
  "empty_overpass (bounding_box (- 62088 / 10000) (1068456 / 10000) 1875) WALKING = FetchResponse True []
   \<and> calculateIsochrone 0 no_rounding empty_overpass ring_concave ring_convex
        \<lparr>p_lat = - 62088 / 10000, p_lng = 1068456 / 10000, p_mode = WALKING, p_minutes = 15\<rparr> []
      = Some (NoIsochrone, [])"
proof -
  let ?p = "\<lparr>p_lat = - 62088 / 10000, p_lng = 1068456 / 10000, p_mode = WALKING, p_minutes = 15\<rparr>"
  have h: "empty_overpass (bounding_box (p_lat ?p) (p_lng ?p) (fetch_radius ?p)) (p_mode ?p)
             = FetchResponse True []"
    by (simp add: empty_overpass_def)
  from empty_elements_pipeline
         [where overpass = empty_overpass and p = ?p and fuel = 0 and adj = Map.empty
            and startLat = 0 and startLng = 0 and m = 900 and rnd = no_rounding
            and concave = ring_concave and convex = ring_convex and history = "[]", OF h]
  show ?thesis by (simp add: empty_overpass_def)
qed

text \<open>
  C9. The radius is \<open>speedMS * (minutes * 60) * 1.5\<close> with \<open>speedMS = speed * 1000 / 3600\<close>.
  For driving the speed is 11.11 meters per second to two decimals, and for ten minutes of
  driving the radius is 10000 meters, which is 9999.9 rounded to the nearest meter.
\<close>

theorem fetch_radius_formula:
  "fetch_radius p = (TRANSPORT_SPEEDS (p_mode p) * 1000 / 3600) * (p_minutes p * 60) * 1.5
   \<and> round (speedMS DRIVING * 100) = 1111
   \<and> fetch_radius \<lparr>p_lat = la, p_lng = lo, p_mode = DRIVING, p_minutes = 10\<rparr> = 10000
   \<and> fetch_radius \<lparr>p_lat = la, p_lng = lo, p_mode = DRIVING, p_minutes = 10\<rparr>
       = of_int (round (99999 / 10 :: real))"
proof -
  show ?thesis by (simp add: fetch_radius_def speedMS_def round_def)
qed

end
